theory Spec2Isabelle
  imports Complex_Main "HOL-Library.Sublist" "HOL-Library.Log_Nat"
begin

section \<open>The question-mark conjugation program\<close>

text \<open>
  The program \<^verbatim>\<open>questionmarkconjugation.py\<close> evaluates the Minkowski question-mark
  function and its inverse to a bounded recursion depth, converts numbers of the unit
  interval to binary strings and back, and builds piecewise-linear tree maps from
  prefix dictionaries.

  Numbers are modelled as \<^typ>\<open>real\<close>: the arithmetic of the program is read as exact
  arithmetic. Where a property depends on the rounding of the program's double-precision
  numbers, the forward transform is modelled a second time, as \<open>question_fl\<close>, with every
  operation rounded to the nearest double. The depth \<open>n\<close> is a \<^typ>\<open>nat\<close>: the program is only specified for
  \<open>n \<ge> 0\<close>. Every operation of the program that can raise is a branch of the model:
  a division raises \<open>ZeroDivisionError\<close> on a zero divisor, \<^verbatim>\<open>int\<close> of a character
  that is no decimal digit and \<^verbatim>\<open>max\<close> of an empty sequence raise \<open>ValueError\<close>,
  a dictionary lookup of a missing key raises \<open>KeyError\<close>.
\<close>

datatype error = ZeroDivisionError | ValueError | KeyError

definition py_div :: "real \<Rightarrow> real \<Rightarrow> error + real" where
  "py_div a b = (if b = 0 then Inl ZeroDivisionError else Inr (a / b))"

subsection \<open>The question-mark function and its inverse\<close>

fun question :: "real \<Rightarrow> nat \<Rightarrow> error + real" where
  "question x n =
     (if x = 0 \<or> n = 0 then Inr x
      else if x \<ge> 1/2 then
        (case py_div 1 x of
           Inl e \<Rightarrow> Inl e
         | Inr r \<Rightarrow>
            (case question (2 - r) (n - 1) of
               Inl e \<Rightarrow> Inl e
             | Inr y \<Rightarrow> py_div (y + 1) 2))
      else
        (case py_div 1 (1 - x) of
           Inl e \<Rightarrow> Inl e
         | Inr r \<Rightarrow>
            (case question (r - 1) (n - 1) of
               Inl e \<Rightarrow> Inl e
             | Inr y \<Rightarrow> py_div y 2)))"

fun invquestion :: "real \<Rightarrow> nat \<Rightarrow> error + real" where
  "invquestion x n =
     (if x = 0 \<or> n = 0 then Inr x
      else if x \<ge> 1/2 then
        (case invquestion (2 * x - 1) (n - 1) of
           Inl e \<Rightarrow> Inl e
         | Inr y \<Rightarrow> py_div 1 (2 - y))
      else
        (case invquestion (2 * x) (n - 1) of
           Inl e \<Rightarrow> Inl e
         | Inr y \<Rightarrow> py_div y (1 + y)))"

subsection \<open>Binary strings\<close>

fun to_bin :: "real \<Rightarrow> nat \<Rightarrow> string" where
  "to_bin x n =
     (if n = 0 then []
      else if x \<ge> 1/2 then CHR ''1'' # to_bin (2 * x - 1) (n - 1)
      else CHR ''0'' # to_bin (2 * x) (n - 1))"

text \<open>
  \<^verbatim>\<open>int(c)\<close> for a string of one character: the value of a decimal digit, and
  \<open>ValueError\<close> for any other character.
\<close>

definition int_of_char :: "char \<Rightarrow> error + int" where
  "int_of_char c =
     (let k = (of_char c :: nat)
      in if 48 \<le> k \<and> k \<le> 57 then Inr (int k - 48) else Inl ValueError)"

fun to_float :: "string \<Rightarrow> error + real" where
  "to_float [] = Inr 0"
| "to_float (c # cs) =
     (case int_of_char c of
        Inl e \<Rightarrow> Inl e
      | Inr d \<Rightarrow>
         (case to_float cs of
            Inl e \<Rightarrow> Inl e
          | Inr r \<Rightarrow> py_div (of_int d + r) 2))"

subsection \<open>Tree maps\<close>

text \<open>
  A dictionary is the list of its items in insertion order, which is the order of
  iteration; \<open>keys\<close> are the keys in that order and \<open>getitem\<close> is the lookup
  \<^verbatim>\<open>sigma[k]\<close>.
\<close>

type_synonym dict = "(string \<times> string) list"

definition keys :: "dict \<Rightarrow> string list" where
  "keys sigma = map fst sigma"

definition getitem :: "dict \<Rightarrow> string \<Rightarrow> error + string" where
  "getitem sigma k = (case map_of sigma k of None \<Rightarrow> Inl KeyError | Some v \<Rightarrow> Inr v)"

text \<open>\<^verbatim>\<open>max(len(s) for s in sigma)\<close>, which raises on the empty dictionary.\<close>

definition max_len :: "string list \<Rightarrow> error + nat" where
  "max_len ks =
     (case ks of
        [] \<Rightarrow> Inl ValueError
      | k # ks' \<Rightarrow> Inr (fold (\<lambda>s m. max m (length s)) ks' (length k)))"

text \<open>
  The loop of \<open>f\<close> over the keys: the first key that the string starts with decides the
  result, and a loop that ends without a match lets \<open>f\<close> return \<^verbatim>\<open>None\<close>, here
  \<open>Inr None\<close>.
\<close>

fun scan :: "string list \<Rightarrow> dict \<Rightarrow> string \<Rightarrow> real \<Rightarrow> error + real option" where
  "scan [] sigma string x = Inr None"
| "scan (string_0 # rest) sigma string x =
     (if take (length string_0) string = string_0 then
        (case to_float string_0 of
           Inl e \<Rightarrow> Inl e
         | Inr t \<Rightarrow>
            (let y = (x - t) * 2 ^ length string_0
             in case getitem sigma string_0 of
                  Inl e \<Rightarrow> Inl e
                | Inr v \<Rightarrow>
                   (case to_float v of
                      Inl e \<Rightarrow> Inl e
                    | Inr t' \<Rightarrow> Inr (Some (t' + y * 2 powi (- int (length v)))))))
      else scan rest sigma string x)"

definition treemap :: "dict \<Rightarrow> real \<Rightarrow> error + real option" where
  "treemap sigma x =
     (case max_len (keys sigma) of
        Inl e \<Rightarrow> Inl e
      | Inr n \<Rightarrow> scan (keys sigma) sigma (to_bin x n) x)"

definition sigma1 :: dict where
  "sigma1 = [(''00'', ''0''), (''01'', ''10''), (''1'', ''11'')]"

definition sigma2 :: dict where
  "sigma2 = [(''000'', ''00''), (''001'', ''010''), (''01'', ''011''), (''1'', ''1'')]"

subsection \<open>The question-mark function in double-precision arithmetic\<close>

text \<open>
  A double is modelled by the real number it stands for. \<open>ilog2 q\<close> is the exponent of a
  positive \<open>q\<close>, the integer \<open>e\<close> with \<open>2 powi e \<le> q < 2 powi (e + 1)\<close>, and \<open>rnd q\<close>
  is the double nearest to \<open>q\<close>: a multiple of \<open>2 powi (e - 52)\<close>, so that the significand
  has 53 bits, with a tie going to the even significand, and with the spacing of the
  subnormal numbers below \<open>2 powi (- 1022)\<close>. Overflow to infinity is not modelled: the
  numbers of this development stay below 4. Each arithmetic operation of the program is
  the exact operation followed by \<open>rnd\<close>, as in IEEE 754 arithmetic, and \<open>question_fl\<close> is
  \<open>question\<close> with these operations.
\<close>

definition ilog2 :: "real \<Rightarrow> int" where
  "ilog2 q =
     (if 1 \<le> q then bitlen \<lfloor>q\<rfloor> - 1
      else let j = bitlen \<lfloor>1 / q\<rfloor> - 1
           in if q * 2 powi j = 1 then - j else - j - 1)"

definition rnd :: "real \<Rightarrow> real" where
  "rnd q =
     (if q = 0 then 0
      else
        let e = max (ilog2 \<bar>q\<bar>) (- 1022);
            u = 2 powi (e - 52);
            m = \<bar>q\<bar> / u;
            f = \<lfloor>m\<rfloor>;
            r = m - of_int f;
            k = (if r < 1/2 then f else if 1/2 < r then f + 1
                 else if even f then f else f + 1)
        in sgn q * of_int k * u)"

definition fl_div :: "real \<Rightarrow> real \<Rightarrow> error + real" where
  "fl_div a b = (if b = 0 then Inl ZeroDivisionError else Inr (rnd (a / b)))"

definition fl_add :: "real \<Rightarrow> real \<Rightarrow> real" where
  "fl_add a b = rnd (a + b)"

definition fl_sub :: "real \<Rightarrow> real \<Rightarrow> real" where
  "fl_sub a b = rnd (a - b)"

fun question_fl :: "real \<Rightarrow> nat \<Rightarrow> error + real" where
  "question_fl x n =
     (if x = 0 \<or> n = 0 then Inr x
      else if x \<ge> 1/2 then
        (case fl_div 1 x of
           Inl e \<Rightarrow> Inl e
         | Inr r \<Rightarrow>
            (case question_fl (fl_sub 2 r) (n - 1) of
               Inl e \<Rightarrow> Inl e
             | Inr y \<Rightarrow> fl_div (fl_add y 1) 2))
      else
        (case fl_div 1 (fl_sub 1 x) of
           Inl e \<Rightarrow> Inl e
         | Inr r \<Rightarrow>
            (case question_fl (fl_sub r 1) (n - 1) of
               Inl e \<Rightarrow> Inl e
             | Inr y \<Rightarrow> fl_div y 2)))"

section \<open>Basic facts\<close>

declare question.simps [simp del] invquestion.simps [simp del] to_bin.simps [simp del]
  question_fl.simps [simp del]

lemma question_0 [simp]: "question x 0 = Inr x"
  by (simp add: question.simps)

lemma question_zero [simp]: "question 0 n = Inr 0"
  by (simp add: question.simps)

lemma invquestion_0 [simp]: "invquestion x 0 = Inr x"
  by (simp add: invquestion.simps)

lemma invquestion_zero [simp]: "invquestion 0 n = Inr 0"
  by (simp add: invquestion.simps)

lemma to_bin_0 [simp]: "to_bin x 0 = []"
  by (simp add: to_bin.simps)

lemma to_bin_Suc:
  "to_bin x (Suc n) =
     (if x \<ge> 1/2 then CHR ''1'' # to_bin (2 * x - 1) n else CHR ''0'' # to_bin (2 * x) n)"
  by (subst to_bin.simps) simp

lemma question_Suc:
  "question x (Suc n) =
     (if x = 0 then Inr x
      else if x \<ge> 1/2 then
        (case question (2 - 1 / x) n of Inl e \<Rightarrow> Inl e | Inr y \<Rightarrow> Inr ((y + 1) / 2))
      else if x = 1 then Inl ZeroDivisionError
      else (case question (1 / (1 - x) - 1) n of Inl e \<Rightarrow> Inl e | Inr y \<Rightarrow> Inr (y / 2)))"
  by (subst question.simps) (auto simp: py_div_def split: sum.splits)

lemma invquestion_Suc:
  "invquestion x (Suc n) =
     (if x = 0 then Inr x
      else if x \<ge> 1/2 then
        (case invquestion (2 * x - 1) n of Inl e \<Rightarrow> Inl e | Inr y \<Rightarrow> py_div 1 (2 - y))
      else
        (case invquestion (2 * x) n of Inl e \<Rightarrow> Inl e | Inr y \<Rightarrow> py_div y (1 + y)))"
  by (subst invquestion.simps) simp

section \<open>Binary strings have the requested length\<close>

lemma to_bin_length: "length (to_bin x n) = n"
  by (induction n arbitrary: x) (simp_all add: to_bin_Suc)

lemma to_bin_chars: "set (to_bin x n) \<subseteq> {CHR ''0'', CHR ''1''}"
  by (induction n arbitrary: x) (auto simp: to_bin_Suc)

text \<open>
  Claim C10. For every real \<open>x\<close>, also outside the unit interval, and every depth \<open>n\<close>,
  \<open>to_bin x n\<close> is a string of exactly \<open>n\<close> characters, each of them \<open>0\<close> or \<open>1\<close>.
\<close>

theorem to_bin_length_and_alphabet:
  "length (to_bin x n) = n \<and> set (to_bin x n) \<subseteq> {CHR ''0'', CHR ''1''}"
  by (simp add: to_bin_length to_bin_chars)

section \<open>The question-mark transforms on the unit interval\<close>

lemma upper_arg_range:
  fixes x :: real
  assumes "1/2 \<le> x" "x \<le> 1"
  shows "0 \<le> 2 - 1 / x \<and> 2 - 1 / x \<le> 1"
  using assms by (simp add: field_simps)

lemma lower_arg_range:
  fixes x :: real
  assumes "0 \<le> x" "x < 1/2"
  shows "0 \<le> 1 / (1 - x) - 1 \<and> 1 / (1 - x) - 1 \<le> 1"
  using assms by (simp add: field_simps)

lemma question_range:
  "0 \<le> x \<Longrightarrow> x \<le> 1 \<Longrightarrow> \<exists>y. question x n = Inr y \<and> 0 \<le> y \<and> y \<le> 1"
proof (induction n arbitrary: x)
  case 0
  then show ?case by simp
next
  case (Suc n)
  show ?case
  proof (cases "x = 0")
    case True
    then show ?thesis by simp
  next
    case nz: False
    show ?thesis
    proof (cases "1/2 \<le> x")
      case True
      with Suc.prems upper_arg_range [of x]
      obtain y where "question (2 - 1 / x) n = Inr y" "0 \<le> y" "y \<le> 1"
        using Suc.IH [of "2 - 1 / x"] by blast
      with nz True have "question x (Suc n) = Inr ((y + 1) / 2)"
        by (simp add: question_Suc)
      moreover have "0 \<le> (y + 1) / 2" "(y + 1) / 2 \<le> 1"
        using \<open>0 \<le> y\<close> \<open>y \<le> 1\<close> by simp_all
      ultimately show ?thesis by blast
    next
      case False
      with Suc.prems lower_arg_range [of x]
      obtain y where "question (1 / (1 - x) - 1) n = Inr y" "0 \<le> y" "y \<le> 1"
        using Suc.IH [of "1 / (1 - x) - 1"] by force
      with nz False Suc.prems have "question x (Suc n) = Inr (y / 2)"
        by (simp add: question_Suc)
      moreover have "0 \<le> y / 2" "y / 2 \<le> 1"
        using \<open>0 \<le> y\<close> \<open>y \<le> 1\<close> by simp_all
      ultimately show ?thesis by blast
    qed
  qed
qed

lemma invquestion_range:
  "0 \<le> x \<Longrightarrow> x \<le> 1 \<Longrightarrow> \<exists>y. invquestion x n = Inr y \<and> 0 \<le> y \<and> y \<le> 1"
proof (induction n arbitrary: x)
  case 0
  then show ?case by simp
next
  case (Suc n)
  show ?case
  proof (cases "x = 0")
    case True
    then show ?thesis by simp
  next
    case nz: False
    show ?thesis
    proof (cases "1/2 \<le> x")
      case True
      with Suc.prems
      obtain y where "invquestion (2 * x - 1) n = Inr y" "0 \<le> y" "y \<le> 1"
        using Suc.IH [of "2 * x - 1"] by force
      with nz True have "invquestion x (Suc n) = Inr (1 / (2 - y))"
        by (simp add: invquestion_Suc py_div_def)
      moreover have "0 \<le> 1 / (2 - y)" "1 / (2 - y) \<le> 1"
        using \<open>0 \<le> y\<close> \<open>y \<le> 1\<close> by (simp_all add: field_simps)
      ultimately show ?thesis by blast
    next
      case False
      with Suc.prems
      obtain y where "invquestion (2 * x) n = Inr y" "0 \<le> y" "y \<le> 1"
        using Suc.IH [of "2 * x"] by force
      with nz False have "invquestion x (Suc n) = Inr (y / (1 + y))"
        by (simp add: invquestion_Suc py_div_def)
      moreover have "0 \<le> y / (1 + y)" "y / (1 + y) \<le> 1"
        using \<open>0 \<le> y\<close> \<open>y \<le> 1\<close> by (simp_all add: field_simps)
      ultimately show ?thesis by blast
    qed
  qed
qed

text \<open>
  Claim C3. For every \<open>x\<close> in the unit interval and every depth \<open>n\<close>, both
  \<open>question x n\<close> and \<open>invquestion x n\<close> return a value of the unit interval.
\<close>

theorem question_invquestion_unit_interval:
  assumes "0 \<le> x" and "x \<le> 1"
  shows "(\<exists>y. question x n = Inr y \<and> 0 \<le> y \<and> y \<le> 1) \<and>
         (\<exists>z. invquestion x n = Inr z \<and> 0 \<le> z \<and> z \<le> 1)"
  using assms question_range [of x n] invquestion_range [of x n] by blast

theorem question_invquestion_unit_interval_witness:
  "(0::real) \<le> 1/3 \<and> (1/3::real) \<le> 1 \<and>
   question (1/3) 2 = Inr (1/4) \<and> invquestion (1/3) 2 = Inr (3/8) \<and>
   (\<exists>y. question (1/3) 2 = Inr y \<and> 0 \<le> y \<and> y \<le> 1) \<and>
   (\<exists>z. invquestion (1/3) 2 = Inr z \<and> 0 \<le> z \<and> z \<le> 1)"
proof -
  have h: "(0::real) \<le> 1/3" "(1/3::real) \<le> 1"
    by simp_all
  have c: "question (1/3) 2 = Inr (1/4)" "invquestion (1/3) 2 = Inr (3/8)"
    by (simp_all add: question_Suc invquestion_Suc numeral_2_eq_2 py_div_def)
  from question_invquestion_unit_interval [OF h, of 2] h c show ?thesis by blast
qed

text \<open>
  Claim C4. For every \<open>x\<close> in the unit interval and every depth \<open>n\<close>, neither
  \<open>question x n\<close> nor \<open>invquestion x n\<close> raises: a division by zero anywhere in the
  recursion would make the result \<open>Inl ZeroDivisionError\<close>, and no error is the result.
\<close>

theorem question_invquestion_no_error:
  assumes "0 \<le> x" and "x \<le> 1"
  shows "question x n \<noteq> Inl e \<and> invquestion x n \<noteq> Inl e"
  using assms question_range [of x n] invquestion_range [of x n] by auto

theorem question_invquestion_no_error_witness:
  "(0::real) \<le> 1/3 \<and> (1/3::real) \<le> 1 \<and>
   question (1/3) 2 \<noteq> Inl ZeroDivisionError \<and> invquestion (1/3) 2 \<noteq> Inl ZeroDivisionError"
proof -
  have h: "(0::real) \<le> 1/3" "(1/3::real) \<le> 1"
    by simp_all
  from question_invquestion_no_error [OF h, of 2 ZeroDivisionError] h show ?thesis by blast
qed

lemma question_one: "question 1 n = Inr 1"
  by (induction n) (simp_all add: question_Suc)

lemma invquestion_one: "invquestion 1 n = Inr 1"
  by (induction n) (simp_all add: invquestion_Suc py_div_def)

text \<open>
  Claim C5. At every depth both transforms fix the endpoints of the unit interval.
\<close>

theorem question_invquestion_endpoints:
  "question 0 n = Inr 0 \<and> question 1 n = Inr 1 \<and>
   invquestion 0 n = Inr 0 \<and> invquestion 1 n = Inr 1"
  by (simp add: question_one invquestion_one)

section \<open>The symmetry of the question-mark function\<close>

lemma question_half: "question (1/2) (Suc n) = Inr (1/2)"
  by (simp add: question_Suc)

text \<open>
  Claim C6. For every \<open>x\<close> in the unit interval and every depth \<open>n\<close>, the truncated
  evaluation satisfies the symmetry \<open>question (1 - x) n = 1 - question x n\<close>; over exact
  arithmetic the two sides are equal, not only close.
\<close>

theorem question_symmetric:
  "0 \<le> x \<Longrightarrow> x \<le> 1 \<Longrightarrow>
   \<exists>a b. question (1 - x) n = Inr a \<and> question x n = Inr b \<and> a = 1 - b"
proof (induction n arbitrary: x)
  case 0
  then show ?case by simp
next
  case (Suc n)
  consider "x = 0" | "x = 1" | "x = 1/2" | "0 < x" "x < 1/2" | "1/2 < x" "x < 1"
    using Suc.prems by linarith
  then show ?case
  proof cases
    case 1
    then show ?thesis by (simp add: question_one)
  next
    case 2
    then show ?thesis by (simp add: question_one)
  next
    case 3
    have "question (1 - 1/2) (Suc n) = Inr (1/2)"
      by (simp add: question_half)
    moreover have "(1/2::real) = 1 - 1/2"
      by simp
    ultimately show ?thesis
      unfolding 3 using question_half [of n] by blast
  next
    case 4
    define t where "t = 1 / (1 - x) - 1"
    have t: "0 \<le> t" "t \<le> 1" using 4 by (simp_all add: t_def field_simps)
    have arg: "2 - 1 / (1 - x) = 1 - t" by (simp add: t_def)
    obtain a b where ab: "question (1 - t) n = Inr a" "question t n = Inr b" "a = 1 - b"
      using Suc.IH [OF t] by blast
    have "question (1 - x) (Suc n) = Inr ((a + 1) / 2)"
      using 4 ab(1) by (simp add: question_Suc arg)
    moreover have "question x (Suc n) = Inr (b / 2)"
      using 4 ab(2) by (simp add: question_Suc t_def)
    moreover have "(a + 1) / 2 = 1 - b / 2"
      using ab(3) by simp
    ultimately show ?thesis by blast
  next
    case 5
    define t where "t = 2 - 1 / x"
    have t: "0 \<le> t" "t \<le> 1" using 5 by (simp_all add: t_def field_simps)
    have arg: "1 / (1 - (1 - x)) - 1 = 1 - t" by (simp add: t_def)
    obtain a b where ab: "question (1 - t) n = Inr a" "question t n = Inr b" "a = 1 - b"
      using Suc.IH [OF t] by blast
    have "question (1 - x) (Suc n) = Inr (a / 2)"
      using 5 ab(1) arg by (simp add: question_Suc)
    moreover have "question x (Suc n) = Inr ((b + 1) / 2)"
      using 5 ab(2) by (simp add: question_Suc t_def)
    moreover have "a / 2 = 1 - (b + 1) / 2"
      using ab(3) by (simp add: field_simps)
    ultimately show ?thesis by blast
  qed
qed

theorem question_symmetric_witness:
  "(0::real) \<le> 1/3 \<and> (1/3::real) \<le> 1 \<and>
   question (1 - 1/3) 2 = Inr (3/4) \<and> question (1/3) 2 = Inr (1/4) \<and>
   (\<exists>a b. question (1 - 1/3) 2 = Inr a \<and> question (1/3) 2 = Inr b \<and> a = 1 - b)"
proof -
  have h: "(0::real) \<le> 1/3" "(1/3::real) \<le> 1"
    by simp_all
  have c: "question (1 - 1/3) 2 = Inr (3/4)" "question (1/3) 2 = Inr (1/4)"
    by (simp_all add: question_Suc numeral_2_eq_2)
  from question_symmetric [OF h, of 2] h c show ?thesis by blast
qed

section \<open>The halving recurrence of the question-mark function\<close>






section \<open>The halving recurrence in double-precision arithmetic\<close>

text \<open>
  The exponent function brackets its argument between two consecutive powers of two, and
  \<open>rnd\<close> gives the known doubles of \<open>1/3\<close> and \<open>1/10\<close> and rounds a tie to the even
  significand.
\<close>

lemma pow2_le_floor:
  fixes k :: int and q :: real
  assumes "2 ^ n \<le> k" and "real_of_int k \<le> q"
  shows "2 ^ n \<le> q"
proof -
  have "(2::real) ^ n = real_of_int (2 ^ n)" by simp
  also have "\<dots> \<le> real_of_int k" using assms(1) by (simp only: of_int_le_iff)
  finally show ?thesis using assms(2) by linarith
qed

lemma floor_lt_pow2:
  fixes k :: int and q :: real
  assumes "k < 2 ^ n" and "q < real_of_int (k + 1)"
  shows "q < 2 ^ n"
proof -
  have "k + 1 \<le> 2 ^ n" using assms(1) by simp
  then have "real_of_int (k + 1) \<le> real_of_int (2 ^ n)" by (simp only: of_int_le_iff)
  also have "\<dots> = 2 ^ n" by simp
  finally show ?thesis using assms(2) by linarith
qed

lemma ilog2_bounds:
  assumes "0 < q"
  shows "2 powi ilog2 q \<le> q \<and> q < 2 powi (ilog2 q + 1)"
proof (cases "1 \<le> q")
  case True
  define k where "k = \<lfloor>q\<rfloor>"
  have k: "0 < k" using True by (simp add: k_def)
  have b: "1 \<le> bitlen k" using k bitlen_eq_zero_iff [of k] bitlen_nonneg [of k] by linarith
  from bitlen_bounds [OF k] have lo: "2 ^ nat (bitlen k - 1) \<le> k" and hi: "k < 2 ^ nat (bitlen k)"
    by simp_all
  have "real_of_int k \<le> q" by (simp add: k_def)
  from pow2_le_floor [OF lo this] have 1: "2 powi (bitlen k - 1) \<le> q"
    using b by (simp add: power_int_def)
  have "q < real_of_int (k + 1)" by (simp add: k_def)
  from floor_lt_pow2 [OF hi this] have 2: "q < 2 powi (bitlen k)"
    using b by (simp add: power_int_def)
  from 1 2 True show ?thesis by (simp add: ilog2_def k_def)
next
  case False
  define k where "k = \<lfloor>1 / q\<rfloor>"
  define j where "j = bitlen k - 1"
  have "1 \<le> 1 / q" using False assms by simp
  then have k: "0 < k" by (simp add: k_def)
  have b: "1 \<le> bitlen k" using k bitlen_eq_zero_iff [of k] bitlen_nonneg [of k] by linarith
  then have j: "0 \<le> j" by (simp add: j_def)
  from bitlen_bounds [OF k] have lo: "2 ^ nat j \<le> k" and hi: "k < 2 ^ nat (j + 1)"
    by (simp_all add: j_def)
  have "real_of_int k \<le> 1 / q" by (simp add: k_def)
  from pow2_le_floor [OF lo this] have "2 ^ nat j \<le> 1 / q" .
  then have 1: "q * 2 ^ nat j \<le> 1" using assms by (simp add: field_simps)
  have "1 / q < real_of_int (k + 1)" by (simp add: k_def)
  from floor_lt_pow2 [OF hi this] have "1 / q < 2 ^ nat (j + 1)" .
  then have 2: "1 < q * 2 ^ nat (j + 1)" using assms by (simp add: field_simps)
  have p: "(2::real) powi j = 2 ^ nat j" using j by (simp add: power_int_def)
  have m: "(2::real) powi (- j) = 1 / 2 ^ nat j" using j by (simp add: power_int_minus p field_simps)
  have m1: "(2::real) powi (- j - 1) = 1 / 2 ^ nat (j + 1)"
    using j by (simp add: power_int_def nat_add_distrib field_simps)
  have s: "(2::real) ^ nat (j + 1) = 2 * 2 ^ nat j" using j by (simp add: nat_add_distrib)
  show ?thesis
  proof (cases "q * 2 powi j = 1")
    case True
    then have "q = 1 / 2 ^ nat j" by (simp add: p field_simps)
    then have e: "2 powi (- j) = q"
      by (simp add: m)
    have "(2::real) powi (- j + 1) = 2 powi (- j) * 2 powi 1"
      by (rule power_int_add) simp
    then have "(2::real) powi (- j + 1) = 2 * 2 powi (- j)"
      by simp
    then have "q < 2 powi (- j + 1)"
      using assms e by simp
    with e have "2 powi (- j) \<le> q" "q < 2 powi (- j + 1)"
      by simp_all
    with True False show ?thesis by (simp add: ilog2_def k_def [symmetric] j_def [symmetric] Let_def)
  next
    case ne: False
    then have "q * 2 ^ nat j < 1" using 1 by (simp add: p)
    then have "q < 2 powi (- j)" by (simp add: m field_simps)
    moreover have "2 powi (- j - 1) \<le> q" using 2 by (simp add: m1 field_simps)
    ultimately show ?thesis
      using ne False by (simp add: ilog2_def k_def [symmetric] j_def [symmetric] Let_def)
  qed
qed

lemma bitlen_numeral: "bitlen (numeral k) = bitlen (numeral k div 2) + 1"
  by (subst compute_bitlen) simp

lemma bitlen_one: "bitlen 1 = 1"
  by (subst compute_bitlen) simp

lemma Let_frac: "Let (numeral a / numeral b :: real) f = f (numeral a / numeral b)"
  by simp

lemmas fl_ops = rnd_def ilog2_def bitlen_numeral bitlen_one Let_frac power_int_minus
  fl_div_def fl_add_def fl_sub_def

lemma rnd_third: "rnd (1/3) = 6004799503160661 / 18014398509481984"
  by (simp add: fl_ops)

lemma rnd_tenth: "rnd (1/10) = 3602879701896397 / 36028797018963968"
  by (simp add: fl_ops)

lemma rnd_tie_even: "rnd (1 + 1 / 2 ^ 53) = 1 \<and> rnd (1 + 3 / 2 ^ 53) = 1 + 4 / 2 ^ 53"
  by (simp add: fl_ops)







section \<open>Encoding and decoding binary strings\<close>

lemma int_of_char_0 [simp]: "int_of_char CHR ''0'' = Inr 0"
  by (simp add: int_of_char_def)

lemma int_of_char_1 [simp]: "int_of_char CHR ''1'' = Inr 1"
  by (simp add: int_of_char_def)

lemma to_float_Cons_0: "to_float (CHR ''0'' # cs) = (case to_float cs of Inl e \<Rightarrow> Inl e | Inr r \<Rightarrow> Inr (r / 2))"
  by (simp add: py_div_def split: sum.splits)

lemma to_float_Cons_1: "to_float (CHR ''1'' # cs) = (case to_float cs of Inl e \<Rightarrow> Inl e | Inr r \<Rightarrow> Inr ((1 + r) / 2))"
  by (simp add: py_div_def split: sum.splits)

lemma to_bin_2:
  "to_bin x 2 =
     (if 1/2 \<le> x then (if 3/4 \<le> x then ''11'' else ''10'')
      else if 1/4 \<le> x then ''01'' else ''00'')"
  by (auto simp: to_bin_Suc numeral_2_eq_2)

lemma to_bin_3:
  "to_bin x 3 =
     (if 1/2 \<le> x then
        (if 3/4 \<le> x then (if 7/8 \<le> x then ''111'' else ''110'')
         else if 5/8 \<le> x then ''101'' else ''100'')
      else if 1/4 \<le> x then (if 3/8 \<le> x then ''011'' else ''010'')
      else if 1/8 \<le> x then ''001'' else ''000'')"
  by (auto simp: to_bin_Suc numeral_3_eq_3)

text \<open>
  Claim C2. For every depth \<open>n\<close> and every \<open>x\<close> in the unit interval, decoding the
  encoding of \<open>x\<close> to \<open>n\<close> digits gives a value in the closed interval from
  \<open>x - 1 / 2 ^ n\<close> to \<open>x\<close>: it never overshoots \<open>x\<close> and undershoots it by at most
  \<open>1 / 2 ^ n\<close>.
\<close>

theorem to_float_to_bin:
  "0 \<le> x \<Longrightarrow> x \<le> 1 \<Longrightarrow>
   \<exists>v. to_float (to_bin x n) = Inr v \<and> x - 1 / 2 ^ n \<le> v \<and> v \<le> x"
proof (induction n arbitrary: x)
  case 0
  then show ?case by simp
next
  case (Suc n)
  show ?case
  proof (cases "1/2 \<le> x")
    case True
    with Suc.prems have "0 \<le> 2 * x - 1" "2 * x - 1 \<le> 1" by simp_all
    from Suc.IH [OF this] obtain v where
      v: "to_float (to_bin (2 * x - 1) n) = Inr v" "2 * x - 1 - 1 / 2 ^ n \<le> v" "v \<le> 2 * x - 1"
      by blast
    have "to_float (to_bin x (Suc n)) = Inr ((1 + v) / 2)"
      using True v(1) by (simp add: to_bin_Suc to_float_Cons_1 del: to_float.simps)
    moreover have "x - 1 / 2 ^ Suc n \<le> (1 + v) / 2"
      using v(2) by (simp add: field_simps)
    moreover have "(1 + v) / 2 \<le> x"
      using v(3) by simp
    ultimately show ?thesis by blast
  next
    case False
    with Suc.prems have "0 \<le> 2 * x" "2 * x \<le> 1" by simp_all
    from Suc.IH [OF this] obtain v where
      v: "to_float (to_bin (2 * x) n) = Inr v" "2 * x - 1 / 2 ^ n \<le> v" "v \<le> 2 * x"
      by blast
    have "to_float (to_bin x (Suc n)) = Inr (v / 2)"
      using False v(1) by (simp add: to_bin_Suc to_float_Cons_0 del: to_float.simps)
    moreover have "x - 1 / 2 ^ Suc n \<le> v / 2"
      using v(2) by (simp add: field_simps)
    moreover have "v / 2 \<le> x"
      using v(3) by simp
    ultimately show ?thesis by blast
  qed
qed

theorem to_float_to_bin_witness:
  "(0::real) \<le> 1/3 \<and> (1/3::real) \<le> 1 \<and> to_bin (1/3) 3 = ''010'' \<and>
   to_float ''010'' = Inr (1/4) \<and>
   (\<exists>v. to_float (to_bin (1/3) 3) = Inr v \<and> 1/3 - 1 / 2 ^ 3 \<le> v \<and> v \<le> 1/3)"
proof -
  have h1: "(0::real) \<le> 1/3" and h2: "(1/3::real) \<le> 1"
    by simp_all
  have c1: "to_bin (1/3) 3 = ''010''"
    by (simp add: to_bin_3)
  have c2: "to_float ''010'' = Inr (1/4)"
    by (simp add: py_div_def)
  from to_float_to_bin [OF h1 h2, of 3] h1 h2 c1 c2 show ?thesis by blast
qed

section \<open>Tree maps\<close>

lemma take_eq_iff_prefix: "take (length k) s = k \<longleftrightarrow> prefix k s"
  by (metis append_eq_conv_conj prefix_def)

lemma fold_max_length:
  "fold (\<lambda>s m. max m (length s)) ks m0 = Max (insert m0 (length ` set ks))"
proof (induction ks arbitrary: m0)
  case Nil
  then show ?case by simp
next
  case (Cons k ks)
  have "Max (insert (max m0 (length k)) (length ` set ks)) =
        max m0 (Max (insert (length k) (length ` set ks)))"
    by (cases "ks = []") (simp_all add: max.assoc)
  with Cons show ?case by simp
qed

lemma max_len_Max: "ks \<noteq> [] \<Longrightarrow> max_len ks = Inr (Max (length ` set ks))"
  by (cases ks) (simp_all add: max_len_def fold_max_length)

lemma scan_no_match:
  "\<forall>k \<in> set ks. \<not> prefix k s \<Longrightarrow> scan ks sigma s x = Inr None"
  by (induction ks) (simp_all add: take_eq_iff_prefix)

lemma map_of_first:
  "i < length sigma \<Longrightarrow> sigma ! i = (a, b) \<Longrightarrow> \<forall>j<i. fst (sigma ! j) \<noteq> a \<Longrightarrow>
   map_of sigma a = Some b"
proof (induction sigma arbitrary: i)
  case Nil
  then show ?case by simp
next
  case (Cons p sigma)
  show ?case
  proof (cases i)
    case 0
    with Cons.prems show ?thesis by simp
  next
    case (Suc i')
    from Cons.prems(3) Suc have "fst p \<noteq> a" by force
    moreover have "map_of sigma a = Some b"
    proof (rule Cons.IH)
      show "i' < length sigma" using Cons.prems(1) Suc by simp
      show "sigma ! i' = (a, b)" using Cons.prems(2) Suc by simp
      show "\<forall>j<i'. fst (sigma ! j) \<noteq> a" using Cons.prems(3) Suc by force
    qed
    ultimately show ?thesis by (cases p) simp
  qed
qed

lemma scan_first_match:
  assumes "i < length ks" and "prefix (ks ! i) s" and "\<forall>j<i. \<not> prefix (ks ! j) s"
    and "to_float (ks ! i) = Inr ta" and "getitem sigma (ks ! i) = Inr b"
    and "to_float b = Inr tb"
  shows "scan ks sigma s x =
           Inr (Some (tb + (x - ta) * 2 ^ length (ks ! i) * 2 powi (- int (length b))))"
  using assms
proof (induction ks arbitrary: i)
  case Nil
  then show ?case by simp
next
  case (Cons k ks)
  show ?case
  proof (cases i)
    case 0
    with Cons.prems show ?thesis by (simp add: take_eq_iff_prefix)
  next
    case (Suc i')
    from Cons.prems(3) Suc have "\<not> prefix k s" by force
    moreover have "scan ks sigma s x =
           Inr (Some (tb + (x - ta) * 2 ^ length (ks ! i') * 2 powi (- int (length b))))"
    proof (rule Cons.IH)
      show "i' < length ks" using Cons.prems(1) Suc by simp
      show "prefix (ks ! i') s" using Cons.prems(2) Suc by simp
      show "\<forall>j<i'. \<not> prefix (ks ! j) s" using Cons.prems(3) Suc by force
      show "to_float (ks ! i') = Inr ta" using Cons.prems(4) Suc by simp
      show "getitem sigma (ks ! i') = Inr b" using Cons.prems(5) Suc by simp
      show "to_float b = Inr tb" by fact
    qed
    ultimately show ?thesis using Suc by (simp add: take_eq_iff_prefix)
  qed
qed

lemma rescale_power:
  "(d::real) * 2 ^ m * 2 powi (- int k) = d * 2 powi (int m - int k)"
  by (simp add: power_int_diff power_int_minus field_simps)

text \<open>
  Claim C1. Let \<open>s\<close> be the encoding of \<open>x\<close> to as many digits as the longest key of
  the dictionary has. If the item \<open>(a, b)\<close> at position \<open>i\<close> is the first one, in the
  order of the dictionary, whose key is a prefix of \<open>s\<close>, and \<open>a\<close> and \<open>b\<close> decode to
  \<open>ta\<close> and \<open>tb\<close>, then the tree map returns
  \<open>tb + (x - ta) * 2 powi (length a - length b)\<close>.
\<close>

theorem treemap_first_match:
  assumes "i < length sigma" and "sigma ! i = (a, b)"
    and "s = to_bin x (Max (length ` set (keys sigma)))"
    and "prefix a s" and "\<forall>j<i. \<not> prefix (fst (sigma ! j)) s"
    and "to_float a = Inr ta" and "to_float b = Inr tb"
  shows "treemap sigma x =
           Inr (Some (tb + (x - ta) * 2 powi (int (length a) - int (length b))))"
proof -
  have len: "i < length (keys sigma)" using assms(1) by (simp add: keys_def)
  have key: "keys sigma ! i = a" using assms(1,2) by (simp add: keys_def)
  have earlier: "\<forall>j<i. \<not> prefix (keys sigma ! j) s"
    using assms(1,5) by (simp add: keys_def)
  have "\<forall>j<i. fst (sigma ! j) \<noteq> a" using assms(4,5) by blast
  then have item: "getitem sigma (keys sigma ! i) = Inr b"
    using map_of_first [OF assms(1,2)] by (simp add: getitem_def key)
  have "keys sigma \<noteq> []" using len by auto
  then have "treemap sigma x = scan (keys sigma) sigma s x"
    by (simp add: treemap_def max_len_Max assms(3))
  also have "\<dots> = Inr (Some (tb + (x - ta) * 2 ^ length (keys sigma ! i) * 2 powi (- int (length b))))"
    by (rule scan_first_match [OF len _ earlier _ item assms(7)]) (use assms(4,6) in \<open>simp_all add: key\<close>)
  finally show ?thesis by (simp add: key rescale_power)
qed

theorem treemap_first_match_witness:
  "(2::nat) < length sigma1 \<and> sigma1 ! 2 = (''1'', ''11'') \<and>
   ''10'' = to_bin (5/8) (Max (length ` set (keys sigma1))) \<and>
   prefix ''1'' ''10'' \<and>
   \<not> prefix (fst (sigma1 ! 0)) ''10'' \<and> \<not> prefix (fst (sigma1 ! 1)) ''10'' \<and>
   to_float ''1'' = Inr (1/2) \<and> to_float ''11'' = Inr (3/4) \<and>
   treemap sigma1 (5/8) = Inr (Some (3/4 + (5/8 - 1/2) * 2 powi (int (length ''1'') - int (length ''11''))))"
proof -
  have h1: "(2::nat) < length sigma1"
    by (simp add: sigma1_def)
  have h2: "sigma1 ! 2 = (''1'', ''11'')"
    by (simp add: sigma1_def)
  have h3: "''10'' = to_bin (5/8) (Max (length ` set (keys sigma1)))"
    by (simp add: sigma1_def keys_def to_bin_Suc)
  have h4: "prefix ''1'' ''10''"
    by simp
  have h5: "\<forall>j<2. \<not> prefix (fst (sigma1 ! j)) ''10''"
    by (simp add: sigma1_def numeral_2_eq_2 less_Suc_eq)
  have h6: "to_float ''1'' = Inr (1/2)"
    by (simp add: py_div_def)
  have h7: "to_float ''11'' = Inr (3/4)"
    by (simp add: py_div_def)
  have h5': "\<not> prefix (fst (sigma1 ! 0)) ''10''" "\<not> prefix (fst (sigma1 ! 1)) ''10''"
    by (simp_all add: sigma1_def)
  from treemap_first_match [OF h1 h2 h3 h4 h5 h6 h7] h1 h2 h3 h4 h5' h6 h7
  show ?thesis by blast
qed

text \<open>
  Claim C9, amended. For every dictionary that is not empty: if no key is a prefix of
  the encoding of \<open>x\<close>, the tree map returns \<^verbatim>\<open>None\<close> and raises nothing.
\<close>

theorem treemap_no_match:
  assumes "sigma \<noteq> []"
    and "\<forall>k \<in> set (keys sigma). \<not> prefix k (to_bin x (Max (length ` set (keys sigma))))"
  shows "treemap sigma x = Inr None"
proof -
  have "keys sigma \<noteq> []" using assms(1) by (simp add: keys_def)
  then show ?thesis
    using assms(2) by (simp add: treemap_def max_len_Max scan_no_match)
qed

theorem treemap_no_match_witness:
  "[(''00'', ''0'')] \<noteq> ([] :: dict) \<and>
   keys [(''00'', ''0'')] = [''00''] \<and>
   \<not> prefix ''00'' (to_bin (1/2) (Max (length ` set (keys [(''00'', ''0'')])))) \<and>
   treemap [(''00'', ''0'')] (1/2) = Inr None"
proof -
  have h1: "[(''00'', ''0'')] \<noteq> ([] :: dict)"
    by simp
  have h2: "\<forall>k \<in> set (keys [(''00'', ''0'')]).
      \<not> prefix k (to_bin (1/2) (Max (length ` set (keys [(''00'', ''0'')]))))"
    by (simp add: keys_def to_bin_Suc)
  have h2': "keys [(''00'', ''0'')] = [''00'']"
    "\<not> prefix ''00'' (to_bin (1/2) (Max (length ` set (keys [(''00'', ''0'')]))))"
    by (simp_all add: keys_def to_bin_Suc)
  from treemap_no_match [OF h1 h2] h1 h2' show ?thesis by blast
qed

text \<open>
  On the empty dictionary the maximum of the key lengths is taken over an empty sequence:
  the tree map raises \<open>ValueError\<close> where the claim as stated promises a missing result
  and no runtime fault.
\<close>

theorem treemap_empty_counterexample:
  "keys [] = [] \<and> treemap [] (1/2) = Inl ValueError \<and> treemap [] (1/2) \<noteq> Inr None"
  by (simp add: treemap_def keys_def max_len_def)

section \<open>The two example dictionaries\<close>

lemma max_len_sigma1: "max_len (keys sigma1) = Inr 2"
  by (simp add: max_len_def keys_def sigma1_def)

lemma max_len_sigma2: "max_len (keys sigma2) = Inr 3"
  by (simp add: max_len_def keys_def sigma2_def)

lemma treemap_sigma1:
  "treemap sigma1 x =
     Inr (Some (if 1/2 \<le> x then 3/4 + (x - 1/2) / 2
                else if 1/4 \<le> x then 1/2 + (x - 1/4)
                else 2 * x))"
proof -
  have "treemap sigma1 x = scan (keys sigma1) sigma1 (to_bin x 2) x"
    by (simp add: treemap_def max_len_sigma1)
  also have "\<dots> = Inr (Some (if 1/2 \<le> x then 3/4 + (x - 1/2) * 2 ^ 1 * 2 powi (- 2)
                else if 1/4 \<le> x then 1/2 + (x - 1/4) * 2 ^ 2 * 2 powi (- 2)
                else 0 + (x - 0) * 2 ^ 2 * 2 powi (- 1)))"
    by (simp add: to_bin_2 keys_def sigma1_def getitem_def py_div_def)
  also have "\<dots> = Inr (Some (if 1/2 \<le> x then 3/4 + (x - 1/2) / 2
                else if 1/4 \<le> x then 1/2 + (x - 1/4)
                else 2 * x))"
    by (auto simp: power_int_minus field_simps)
  finally show ?thesis .
qed

lemma treemap_sigma2:
  "treemap sigma2 x =
     Inr (Some (if 1/2 \<le> x then x
                else if 1/4 \<le> x then 3/8 + (x - 1/4) / 2
                else if 1/8 \<le> x then 1/4 + (x - 1/8)
                else 2 * x))"
proof -
  have "treemap sigma2 x = scan (keys sigma2) sigma2 (to_bin x 3) x"
    by (simp add: treemap_def max_len_sigma2)
  also have "\<dots> = Inr (Some (if 1/2 \<le> x then 1/2 + (x - 1/2) * 2 ^ 1 * 2 powi (- 1)
                else if 1/4 \<le> x then 3/8 + (x - 1/4) * 2 ^ 2 * 2 powi (- 3)
                else if 1/8 \<le> x then 1/4 + (x - 1/8) * 2 ^ 3 * 2 powi (- 3)
                else 0 + (x - 0) * 2 ^ 3 * 2 powi (- 2)))"
    by (simp add: to_bin_3 keys_def sigma2_def getitem_def py_div_def)
  also have "\<dots> = Inr (Some (if 1/2 \<le> x then x
                else if 1/4 \<le> x then 3/8 + (x - 1/4) / 2
                else if 1/8 \<le> x then 1/4 + (x - 1/8)
                else 2 * x))"
    by (auto simp: power_int_minus field_simps)
  finally show ?thesis .
qed

text \<open>
  Claim C8. The tree maps of the two example dictionaries \<open>sigma1\<close> and \<open>sigma2\<close> are
  non-decreasing on the unit interval.
\<close>

theorem treemap_examples_monotone:
  assumes "0 \<le> x1" and "x1 \<le> x2" and "x2 \<le> 1"
  shows "(\<exists>y1 y2. treemap sigma1 x1 = Inr (Some y1) \<and> treemap sigma1 x2 = Inr (Some y2) \<and> y1 \<le> y2) \<and>
         (\<exists>z1 z2. treemap sigma2 x1 = Inr (Some z1) \<and> treemap sigma2 x2 = Inr (Some z2) \<and> z1 \<le> z2)"
proof -
  have "(if 1/2 \<le> x1 then 3/4 + (x1 - 1/2) / 2 else if 1/4 \<le> x1 then 1/2 + (x1 - 1/4) else 2 * x1)
        \<le> (if 1/2 \<le> x2 then 3/4 + (x2 - 1/2) / 2 else if 1/4 \<le> x2 then 1/2 + (x2 - 1/4) else 2 * x2)"
    using assms(2) by (simp split: if_splits add: field_simps)
  moreover have "(if 1/2 \<le> x1 then x1 else if 1/4 \<le> x1 then 3/8 + (x1 - 1/4) / 2
                  else if 1/8 \<le> x1 then 1/4 + (x1 - 1/8) else 2 * x1)
        \<le> (if 1/2 \<le> x2 then x2 else if 1/4 \<le> x2 then 3/8 + (x2 - 1/4) / 2
                  else if 1/8 \<le> x2 then 1/4 + (x2 - 1/8) else 2 * x2)"
    using assms(2) by (simp split: if_splits add: field_simps)
  ultimately show ?thesis
    unfolding treemap_sigma1 treemap_sigma2 by blast
qed

theorem treemap_examples_monotone_witness:
  "(0::real) \<le> 1/8 \<and> (1/8::real) \<le> 5/8 \<and> (5/8::real) \<le> 1 \<and>
   treemap sigma1 (1/8) = Inr (Some (1/4)) \<and> treemap sigma1 (5/8) = Inr (Some (13/16)) \<and>
   treemap sigma2 (1/8) = Inr (Some (1/4)) \<and> treemap sigma2 (5/8) = Inr (Some (5/8)) \<and>
   (\<exists>y1 y2. treemap sigma1 (1/8) = Inr (Some y1) \<and> treemap sigma1 (5/8) = Inr (Some y2) \<and> y1 \<le> y2) \<and>
   (\<exists>z1 z2. treemap sigma2 (1/8) = Inr (Some z1) \<and> treemap sigma2 (5/8) = Inr (Some z2) \<and> z1 \<le> z2)"
  using treemap_examples_monotone [of "1/8" "5/8"] by (simp add: treemap_sigma1 treemap_sigma2)

end
